theory Spec2Isabelle
  imports Complex_Main
begin

section \<open>Data model\<close>

text \<open>
  The notebook defines the class \<open>SmartSwitch\<close>. Its methods talk to a Fritz!DECT switch
  through the \<open>fritzconnection\<close> library and read the local clock. Timestamps
  (\<open>datetime\<close>, microsecond resolution) are integers counting microseconds; quantities in
  seconds (\<open>total_seconds()\<close>, the power in Watt, offsets) are Python floats and are taken
  as real numbers here, so the comparisons of the source are the comparisons of the model
  and its sums and halvings are exact. A double holds such a sum only while 53 significant
  bits are enough for it: \<open>is_double\<close> below says which real numbers are doubles, and the
  section on the latency bands gives an iteration whose exact sum is none. Calls of the
  library are taken to succeed: what \<open>fritzconnection\<close> raises when the network fails is
  outside the notebook.
\<close>

type_synonym timestamp = int

text \<open>The dictionary returned by \<open>get_latest_power_record\<close>, one field per key.\<close>

record power_record =
  power_val :: real
  record_time :: timestamp
  request_time :: timestamp
  response_time :: timestamp
  duration :: real
  latency :: real

text \<open>
  The entry \<open>'power'\<close> of \<open>get_basic_device_stats()\<close>: the recorded values (integer
  multiples of 0.01 W, latest first) and the time stamp of the latest one.
\<close>

record power_stats =
  data :: "int list"
  datatime :: timestamp

text \<open>
  Everything outside the class: the local clock (the i-th call of \<open>datetime.now()\<close>
  returns \<open>clock i\<close>), the answers the device gives to the requests still to come, its
  output state, and a log of what the program did (requests sent, arguments of
  \<open>set_switch\<close>, arguments of \<open>time.sleep\<close>).
\<close>

record world =
  clock :: "nat \<Rightarrow> timestamp"
  ticks :: nat
  script :: "power_stats list"
  switch :: bool
  fetched :: nat
  commands :: "bool list"
  slept :: "real list"

text \<open>
  A call either returns, raises, is still waiting for an answer of the device when the
  scripted answers end (\<open>Pending\<close>), or never leaves the scheduling loop (\<open>Diverged\<close>).
\<close>

datatype error = IndexError | ValueError | UnboundLocalError

datatype 'a outcome = Returned 'a | Raised error | Pending | Diverged

text \<open>The local variables of the main loop of \<open>turn_off_when_idle\<close>.\<close>

record sync =
  base_time :: timestamp
  offset :: real
  lower_bound :: real
  increment :: real
  switch_is_on :: bool

section \<open>Helpers\<close>

text \<open>
  \<open>datetime.timedelta(seconds=s)\<close> keeps whole microseconds, rounding half to even;
  \<open>total_seconds()\<close> goes back. The product with 1000000 is exact here;
  \<open>datetime.timedelta\<close> forms it in double arithmetic and raises \<open>OverflowError\<close> beyond
  999999999 days, far from the ten seconds and the offsets below one second of the runs
  considered here.
\<close>

definition round_half_even :: "real \<Rightarrow> int" where
  "round_half_even x =
     (let f = \<lfloor>x\<rfloor>; r = x - of_int f
      in if r < 1 / 2 then f else if 1 / 2 < r then f + 1 else if even f then f else f + 1)"

definition timedelta :: "real \<Rightarrow> int" where
  "timedelta seconds = round_half_even (seconds * 1000000)"

definition total_seconds :: "int \<Rightarrow> real" where
  "total_seconds d = of_int d / 1000000"

definition nudge_timestamp :: "timestamp \<Rightarrow> real \<Rightarrow> timestamp" where
  "nudge_timestamp ts seconds = ts + timedelta seconds"

section \<open>Device and clock\<close>

definition now :: "world \<Rightarrow> timestamp \<times> world" where
  "now w = (clock w (ticks w), w\<lparr>ticks := Suc (ticks w)\<rparr>)"

definition sleep :: "real \<Rightarrow> world \<Rightarrow> unit outcome \<times> world" where
  "sleep secs w =
     (if secs < 0 then (Raised ValueError, w) else (Returned (), w\<lparr>slept := slept w @ [secs]\<rparr>))"

definition get_switch_state :: "world \<Rightarrow> bool \<times> world" where
  "get_switch_state w = (switch w, w)"

definition set_switch :: "bool \<Rightarrow> world \<Rightarrow> world" where
  "set_switch arg w = w\<lparr>switch := arg, commands := commands w @ [arg]\<rparr>"

definition get_power_stats :: "world \<Rightarrow> power_stats outcome \<times> world" where
  "get_power_stats w =
     (case script w of
        [] \<Rightarrow> (Pending, w)
      | s # rest \<Rightarrow> (Returned s, w\<lparr>script := rest, fetched := Suc (fetched w)\<rparr>))"

section \<open>Turning off an idle switch\<close>

text \<open>
  \<open>turn_off_if_idle\<close>: the result is the final switch state, so \<open>False\<close> says that the
  switch has been turned off. \<open>idle_threshold\<close> is the attribute of the object.
\<close>

definition turn_off_if_idle :: "real \<Rightarrow> power_record \<Rightarrow> real \<Rightarrow> world \<Rightarrow> bool \<times> world" where
  "turn_off_if_idle idle_threshold power_record allowed_latency w =
     (let device_idle = power_val power_record < idle_threshold;
          latency_ok = 0 < latency power_record \<and> latency power_record < allowed_latency
      in if device_idle \<and> latency_ok then (False, set_switch False w) else (True, w))"

section \<open>One iteration of the main loop\<close>

text \<open>
  The flag \<open>precision_is_low\<close> is computed once, before the loop, from the first
  increment \<open>1/4\<close>; \<open>10**(-cycle_detection_precision)\<close> for a precision that is a natural
  number.
\<close>

definition precision_floor :: "nat \<Rightarrow> real" where
  "precision_floor cycle_detection_precision = 1 / 10 ^ cycle_detection_precision"

definition precision_is_low_init :: "nat \<Rightarrow> bool" where
  "precision_is_low_init cycle_detection_precision =
     (1 / 4 > precision_floor cycle_detection_precision)"

text \<open>The \<open>if/elif/else\<close> on the latency, and the new base time.\<close>

definition adjust_parameters :: "bool \<Rightarrow> power_record \<Rightarrow> sync \<Rightarrow> sync" where
  "adjust_parameters precision_is_low power_record st =
     (let st' =
        (if 9 < latency power_record \<and> latency power_record < 12.5 then
           st\<lparr>lower_bound := max (offset st) (lower_bound st),
              offset := offset st + increment st\<rparr>
         else if 0 < latency power_record \<and> latency power_record < 2.5 then
           (let precision_can_be_increased = (offset st - increment st = lower_bound st);
                inc = (if precision_is_low \<and> precision_can_be_increased
                       then increment st / 2 else increment st)
            in st\<lparr>increment := inc, offset := offset st - inc\<rparr>)
         else st\<lparr>offset := 0\<rparr>)
      in st'\<lparr>base_time := nudge_timestamp (record_time power_record) (offset st')\<rparr>)"

text \<open>
  The body of the \<open>while\<close> after the record has arrived: \<open>turn_off_if_idle\<close> with the
  caller's tolerance, then the adjustment.
\<close>

definition loop_body ::
  "real \<Rightarrow> real \<Rightarrow> bool \<Rightarrow> power_record \<Rightarrow> sync \<Rightarrow> world \<Rightarrow> sync \<times> world" where
  "loop_body idle_threshold allowed_latency precision_is_low power_record st w =
     (let r = turn_off_if_idle idle_threshold power_record allowed_latency w
      in (adjust_parameters precision_is_low power_record (st\<lparr>switch_is_on := fst r\<rparr>), snd r))"

text \<open>The local variables when the loop starts.\<close>

definition init_sync :: "power_record \<Rightarrow> bool \<Rightarrow> sync" where
  "init_sync power_record on =
     \<lparr>base_time = record_time power_record, offset = 0, lower_bound = - 1,
      increment = 1 / 4, switch_is_on = on\<rparr>"

section \<open>Fetching records\<close>

text \<open>Sequencing of calls that may raise or not return.\<close>

definition and_then ::
  "('w \<Rightarrow> 'a outcome \<times> 'w) \<Rightarrow> ('a \<Rightarrow> 'w \<Rightarrow> 'b outcome \<times> 'w) \<Rightarrow> 'w \<Rightarrow> 'b outcome \<times> 'w" where
  "and_then m f w =
     (case m w of
        (Returned x, w') \<Rightarrow> f x w'
      | (Raised e, w') \<Rightarrow> (Raised e, w')
      | (Pending, w') \<Rightarrow> (Pending, w')
      | (Diverged, w') \<Rightarrow> (Diverged, w'))"

text \<open>
  \<open>get_latest_power_record\<close>: clock, request, clock, then the record is built;
  \<open>power_stats['data'][0]\<close> raises on an empty list.
\<close>

definition get_latest_power_record :: "world \<Rightarrow> power_record outcome \<times> world" where
  "get_latest_power_record w =
     (let t1 = now w in
      and_then get_power_stats
        (\<lambda>stats w2.
           (let t2 = now w2 in
            case data stats of
              [] \<Rightarrow> (Raised IndexError, snd t2)
            | d # _ \<Rightarrow>
                (Returned
                   \<lparr>power_val = of_int d / 100,
                    record_time = datatime stats,
                    request_time = fst t1,
                    response_time = fst t2,
                    duration = total_seconds (fst t2 - fst t1),
                    latency = total_seconds (fst t2 - datatime stats)\<rparr>,
                 snd t2)))
        (snd t1))"

text \<open>
  \<open>get_reliable_power_record\<close>: two requests, then the \<open>while\<close> loop, which compares each
  new time stamp with the one of the first request.
\<close>

function reliable_loop ::
  "real \<Rightarrow> timestamp \<Rightarrow> power_record \<Rightarrow> world \<Rightarrow> power_record outcome \<times> world" where
  "reliable_loop interval init_time power_record w =
     (if record_time power_record = init_time then
        (case sleep interval w of
           (Returned u, w1) \<Rightarrow>
             (case get_latest_power_record w1 of
                (Returned next_record, w2) \<Rightarrow> reliable_loop interval init_time next_record w2
              | (Raised e, w2) \<Rightarrow> (Raised e, w2)
              | (Pending, w2) \<Rightarrow> (Pending, w2)
              | (Diverged, w2) \<Rightarrow> (Diverged, w2))
         | (Raised e, w1) \<Rightarrow> (Raised e, w1)
         | (Pending, w1) \<Rightarrow> (Pending, w1)
         | (Diverged, w1) \<Rightarrow> (Diverged, w1))
      else (Returned power_record, w))"
  by pat_completeness auto
termination
proof (relation "measure (\<lambda>(interval, init_time, power_record, w). length (script w))")
  show "wf (measure (\<lambda>(interval, init_time, power_record, w). length (script w)))"
    by simp
next
  fix interval :: real and init_time :: timestamp and power_record :: power_record
    and w x1 w1 xa w2 pr
  assume s: "(x1, w1) = sleep interval w" and g: "(xa, w2) = get_latest_power_record w1"
    and r: "xa = Returned pr"
  from s have "script w1 = script w"
    by (auto simp add: sleep_def split: if_splits)
  moreover from g r have "length (script w2) < length (script w1)"
    by (auto simp add: get_latest_power_record_def and_then_def get_power_stats_def now_def
        Let_def split: list.splits)
  ultimately show "((interval, init_time, pr, w2), interval, init_time, power_record, w)
      \<in> measure (\<lambda>(interval, init_time, power_record, w). length (script w))"
    by simp
qed

definition get_reliable_power_record :: "real \<Rightarrow> world \<Rightarrow> power_record outcome \<times> world" where
  "get_reliable_power_record interval w =
     and_then get_latest_power_record
       (\<lambda>first_record.
          and_then get_latest_power_record
            (\<lambda>power_record. reliable_loop interval (record_time first_record) power_record))
       w"

section \<open>Scheduling the next request\<close>

text \<open>
  The \<open>while\<close> of \<open>get_next_power_record\<close> reads the clock in every test. It need not
  end (a cycle of zero length), so not returning is the value \<open>None\<close>.
\<close>

partial_function (option) exec_loop ::
  "int \<Rightarrow> timestamp \<Rightarrow> world \<Rightarrow> (timestamp \<times> world) option" where
  "exec_loop cycle_delta exec_time w =
     (let t = now w in
      if exec_time < fst t then exec_loop cycle_delta (exec_time + cycle_delta) (snd t)
      else Some (exec_time, snd t))"

declare exec_loop.simps [code]

definition get_next_power_record ::
  "timestamp \<Rightarrow> real \<Rightarrow> world \<Rightarrow> power_record outcome \<times> world" where
  "get_next_power_record base cycle w =
     (case exec_loop (timedelta cycle) base w of
        None \<Rightarrow> (Diverged, w)
      | Some (exec_time, w1) \<Rightarrow>
          (let t = now w1;
               sleep_time = total_seconds (exec_time - fst t)
           in and_then (sleep sleep_time) (\<lambda>u. get_latest_power_record) (snd t)))"

section \<open>The main routine\<close>

text \<open>
  The status line is formatted whether or not it is printed. \<open>print_timestamp\<close> assigns
  its result only for \<open>dig\<close> from 0 to 6 and then returns the unassigned local variable.
\<close>

definition power_update :: "nat \<Rightarrow> error option" where
  "power_update cycle_detection_precision =
     (if cycle_detection_precision \<le> 6 then None else Some UnboundLocalError)"

text \<open>
  The \<open>while switch_is_on\<close> loop. The result also holds the local variables as they are
  when the loop is left, or when the scripted answers end.
\<close>

function main_loop ::
  "real \<Rightarrow> real \<Rightarrow> nat \<Rightarrow> bool \<Rightarrow> sync \<Rightarrow> world \<Rightarrow> unit outcome \<times> sync \<times> world" where
  "main_loop idle_threshold allowed_latency precision precision_is_low st w =
     (if switch_is_on st then
        (case get_next_power_record (base_time st) 10 w of
           (Returned power_record, w1) \<Rightarrow>
             (case power_update precision of
                Some e \<Rightarrow> (Raised e, st, w1)
              | None \<Rightarrow>
                  (case loop_body idle_threshold allowed_latency precision_is_low power_record st w1 of
                     (st', w2) \<Rightarrow>
                       main_loop idle_threshold allowed_latency precision precision_is_low st' w2))
         | (Raised e, w1) \<Rightarrow> (Raised e, st, w1)
         | (Pending, w1) \<Rightarrow> (Pending, st, w1)
         | (Diverged, w1) \<Rightarrow> (Diverged, st, w1))
      else (Returned (), st, w))"
  by pat_completeness auto
termination
proof (relation "measure (\<lambda>(idle, al, p, pil, st, w). length (script w))")
  show "wf (measure (\<lambda>(idle, al, p, pil, st, w). length (script w)))"
    by simp
next
  fix idle al :: real and p :: nat and pil :: bool and st :: sync and w :: world
    and x1 w1 pr st' w2
  assume g: "(x1, w1) = get_next_power_record (base_time st) 10 w"
    and x: "x1 = Returned pr"
    and b: "(st', w2) = loop_body idle al pil pr st w1"
  have scheduling: "script (snd y) = script v" if "exec_loop c e v = Some y" for c e v y
  proof (rule exec_loop.raw_induct [where P = "\<lambda>c e v y. script (snd y) = script v", OF _ that])
    fix f :: "int \<Rightarrow> timestamp \<Rightarrow> world \<Rightarrow> (timestamp \<times> world) option" and c e v y
    assume IH: "\<And>c e v y. f c e v = Some y \<Longrightarrow> script (snd y) = script v"
      and step: "(let t = now v in if e < fst t then f c (e + c) (snd t) else Some (e, snd t))
          = Some y"
    show "script (snd y) = script v"
    proof (cases "e < fst (now v)")
      case True
      with step have "f c (e + c) (snd (now v)) = Some y"
        by (simp add: Let_def)
      from IH [OF this] show ?thesis
        by (simp add: now_def)
    next
      case False
      with step show ?thesis
        by (auto simp add: Let_def now_def)
    qed
  qed
  from g x obtain e v1 where e: "exec_loop (timedelta 10) (base_time st) w = Some (e, v1)"
    by (cases "exec_loop (timedelta 10) (base_time st) w")
      (auto simp add: get_next_power_record_def)
  from scheduling [OF e] have "script v1 = script w"
    by simp
  with g x e have "length (script w1) < length (script w)"
    by (auto simp add: get_next_power_record_def and_then_def sleep_def
        get_latest_power_record_def get_power_stats_def now_def Let_def
        split: if_splits list.splits)
  moreover from b have "script w2 = script w1"
    by (auto simp add: loop_body_def Let_def turn_off_if_idle_def set_switch_def
        split: if_splits)
  ultimately show "((idle, al, p, pil, st', w2), idle, al, p, pil, st, w)
      \<in> measure (\<lambda>(idle, al, p, pil, st, w). length (script w))"
    by simp
qed

text \<open>
  \<open>turn_off_when_idle\<close>: nothing is done when the switch is off; otherwise the first
  reliable record, the check with the tolerance of half a second, and the loop.
\<close>

definition turn_off_when_idle :: "real \<Rightarrow> real \<Rightarrow> nat \<Rightarrow> world \<Rightarrow> unit outcome \<times> world" where
  "turn_off_when_idle idle_threshold allowed_latency cycle_detection_precision w =
     (let s = get_switch_state w in
      if \<not> fst s then (Returned (), snd s)
      else
        and_then (get_reliable_power_record 2)
          (\<lambda>power_record w1.
             (case power_update cycle_detection_precision of
                Some e \<Rightarrow> (Raised e, w1)
              | None \<Rightarrow>
                  (let g = turn_off_if_idle idle_threshold power_record (1 / 2) w1;
                       r = main_loop idle_threshold allowed_latency cycle_detection_precision
                             (precision_is_low_init cycle_detection_precision)
                             (init_sync power_record (fst g)) (snd g)
                   in (fst r, snd (snd r)))))
          (snd s))"

section \<open>A run of the loop\<close>

text \<open>
  The clock readings and the answers of a switch that draws 427.36 W throughout: the first
  request of the loop is answered 10.82 s after the sample was taken, the later ones
  1.06 s, 1.075 s and 1 s after. \<open>run_world n\<close> scripts the first \<open>n\<close> of these answers;
  \<open>run_first_record\<close> is the reliable record the loop starts from.
\<close>

definition run_readings :: "timestamp list" where
  "run_readings =
     [1420000, 1420000, 1420000, 10000000, 10820000,
      10820000, 10820000, 10820000, 10820000, 20250000, 21060000,
      21060000, 21060000, 21060000, 30125000, 31075000,
      31075000, 31075000, 31075000, 40062500, 41000000]"

definition run_clock :: "nat \<Rightarrow> timestamp" where
  "run_clock i = (if i < length run_readings then run_readings ! i else 41000000)"

definition run_answers :: "power_stats list" where
  "run_answers =
     [\<lparr>data = [42736], datatime = 0\<rparr>, \<lparr>data = [42736], datatime = 20000000\<rparr>,
      \<lparr>data = [42736], datatime = 30000000\<rparr>, \<lparr>data = [42736], datatime = 40000000\<rparr>]"

definition run_world :: "nat \<Rightarrow> world" where
  "run_world n =
     \<lparr>clock = run_clock, ticks = 0, script = take n run_answers, switch = True,
      fetched = 0, commands = [], slept = []\<rparr>"

definition run_first_record :: power_record where
  "run_first_record =
     \<lparr>power_val = 42736 / 100, record_time = 0, request_time = 500000,
      response_time = 1420000, duration = 92 / 100, latency = 142 / 100\<rparr>"

text \<open>
  The test run recorded in the notebook (precision 3, one second allowed), with 16:12:00 as
  time 0: a stale first answer, the reliable record of 16:12:15 seen 1.42 s late, then the
  loop's records seen 10.82 s, 1.06 s and 0.95 s late, the last two below 5 W.
\<close>

definition demo_readings :: "timestamp list" where
  "demo_readings =
     [14700000, 15500000, 15500000, 16420000,
      16420000, 16420000, 16420000, 25000000, 25820000,
      25820000, 25820000, 25820000, 25820000, 35250000, 36060000,
      36060000, 36060000, 36060000, 45125000, 45950000]"

definition demo_clock :: "nat \<Rightarrow> timestamp" where
  "demo_clock i = (if i < length demo_readings then demo_readings ! i else 45950000)"

definition demo_answers :: "power_stats list" where
  "demo_answers =
     [\<lparr>data = [42736], datatime = 5000000\<rparr>, \<lparr>data = [42736], datatime = 15000000\<rparr>,
      \<lparr>data = [42736], datatime = 15000000\<rparr>, \<lparr>data = [293], datatime = 35000000\<rparr>,
      \<lparr>data = [307], datatime = 45000000\<rparr>]"

definition demo_world :: world where
  "demo_world =
     \<lparr>clock = demo_clock, ticks = 0, script = demo_answers, switch = True,
      fetched = 0, commands = [], slept = []\<rparr>"

section \<open>A clock that passes the wake time\<close>

text \<open>
  A request scheduled from base time 0 with a cycle of 10 s: the clock reads 9.999999 s in
  both tests of the scheduling loop and 10.000001 s when it is read again for the sleep.
  One answer of the device is waiting.
\<close>

definition late_readings :: "timestamp list" where
  "late_readings = [9999999, 9999999, 10000001]"

definition late_clock :: "nat \<Rightarrow> timestamp" where
  "late_clock i = (if i < length late_readings then late_readings ! i else 10000001)"

definition late_world :: world where
  "late_world =
     \<lparr>clock = late_clock, ticks = 0, script = [\<lparr>data = [42736], datatime = 0\<rparr>], switch = True,
      fetched = 0, commands = [], slept = []\<rparr>"

section \<open>Doubles\<close>


declare main_loop.simps [simp del] reliable_loop.simps [simp del]

section \<open>Auxiliary lemmas\<close>

lemma sleep_script:
  "sleep secs w = (r, w') \<Longrightarrow> script w' = script w"
  by (auto simp add: sleep_def split: if_splits)

lemma get_latest_power_record_script:
  "get_latest_power_record w = (Returned pr, w') \<Longrightarrow> script w = hd (script w) # script w' \<and> script w \<noteq> []"
  by (auto simp add: get_latest_power_record_def and_then_def get_power_stats_def now_def Let_def
      split: list.splits)

text \<open>What scheduling and fetching leave unchanged.\<close>

lemma exec_loop_frame:
  assumes "exec_loop c e w = Some y"
  shows "snd y = w\<lparr>ticks := ticks (snd y)\<rparr>"
proof (rule exec_loop.raw_induct
    [where P = "\<lambda>c e w y. snd y = w\<lparr>ticks := ticks (snd y)\<rparr>", OF _ assms])
  fix f :: "int \<Rightarrow> timestamp \<Rightarrow> world \<Rightarrow> (timestamp \<times> world) option"
    and c e w y
  assume IH: "\<And>c e w y. f c e w = Some y \<Longrightarrow> snd y = w\<lparr>ticks := ticks (snd y)\<rparr>"
    and step: "(let t = now w in if e < fst t then f c (e + c) (snd t) else Some (e, snd t)) = Some y"
  show "snd y = w\<lparr>ticks := ticks (snd y)\<rparr>"
  proof (cases "e < fst (now w)")
    case True
    with step have "f c (e + c) (snd (now w)) = Some y"
      by (simp add: Let_def)
    then have "snd y = (snd (now w))\<lparr>ticks := ticks (snd y)\<rparr>"
      by (rule IH)
    then show ?thesis
      by (simp add: now_def)
  next
    case False
    with step have "y = (e, snd (now w))"
      by (simp add: Let_def)
    then show ?thesis
      by (simp add: now_def)
  qed
qed

lemma sleep_frame:
  "sleep secs w = (r, w') \<Longrightarrow>
     script w' = script w \<and> commands w' = commands w \<and> switch w' = switch w \<and> fetched w' = fetched w"
  by (auto simp add: sleep_def split: if_splits)

lemma get_latest_power_record_frame:
  "get_latest_power_record w = (r, w') \<Longrightarrow> commands w' = commands w \<and> switch w' = switch w"
  by (auto simp add: get_latest_power_record_def and_then_def get_power_stats_def now_def Let_def
      split: list.splits)

lemma get_next_power_record_frame:
  assumes "get_next_power_record b c w = (r, w')"
  shows "commands w' = commands w \<and> switch w' = switch w"
proof (cases "exec_loop (timedelta c) b w")
  case None
  with assms show ?thesis by (simp add: get_next_power_record_def)
next
  case (Some y)
  obtain e w1 where y: "y = (e, w1)" by (cases y)
  from exec_loop_frame [OF Some] y have w1: "w1 = w\<lparr>ticks := ticks w1\<rparr>" by simp
  have c1: "commands w1 = commands w" "switch w1 = switch w"
    by (subst w1, simp)+
  show ?thesis
    using assms Some y c1
    by (auto simp add: get_next_power_record_def and_then_def Let_def now_def
        split: prod.splits outcome.splits dest!: sleep_frame get_latest_power_record_frame)
qed

lemma get_next_power_record_script:
  assumes "get_next_power_record b c w = (Returned pr, w')"
  shows "length (script w') < length (script w)"
proof (cases "exec_loop (timedelta c) b w")
  case None
  with assms show ?thesis by (simp add: get_next_power_record_def)
next
  case (Some y)
  obtain e w1 where y: "y = (e, w1)" by (cases y)
  from exec_loop_frame [OF Some] y have w1: "w1 = w\<lparr>ticks := ticks w1\<rparr>" by simp
  have c1: "script w1 = script w"
    by (subst w1, simp)
  from assms Some y obtain w2 u where
    s: "sleep (total_seconds (e - fst (now w1))) (snd (now w1)) = (Returned u, w2)"
    and g: "get_latest_power_record w2 = (Returned pr, w')"
    by (auto simp add: get_next_power_record_def and_then_def Let_def
        split: prod.splits outcome.splits)
  from sleep_script [OF s] have "script w2 = script w"
    using c1 by (simp add: now_def)
  moreover from get_latest_power_record_script [OF g] have "length (script w') < length (script w2)"
    by (metis length_Cons lessI)
  ultimately show ?thesis by simp
qed

lemma turn_off_if_idle_script:
  "turn_off_if_idle idle r al w = (b, w') \<Longrightarrow> script w' = script w"
  by (auto simp add: turn_off_if_idle_def set_switch_def Let_def split: if_splits)

lemma loop_body_script:
  "loop_body idle al pil pr st w = (st', w') \<Longrightarrow> script w' = script w"
  by (auto simp add: loop_body_def Let_def turn_off_if_idle_def set_switch_def split: if_splits)

lemma reliable_loop_frame:
  "reliable_loop interval init_time power_record w = (r, w') \<Longrightarrow>
     commands w' = commands w \<and> switch w' = switch w"
proof (induction interval init_time power_record w rule: reliable_loop.induct)
  case (1 interval init_time power_record w)
  show ?case
  proof (cases "record_time power_record = init_time")
    case False
    with "1.prems" show ?thesis by (simp add: reliable_loop.simps)
  next
    case True
    obtain x w1 where s: "sleep interval w = (x, w1)" by (cases "sleep interval w")
    obtain y w2 where g: "get_latest_power_record w1 = (y, w2)"
      by (cases "get_latest_power_record w1")
    from sleep_frame [OF s] get_latest_power_record_frame [OF g]
    have f: "commands w2 = commands w" "switch w2 = switch w" "commands w1 = commands w"
      "switch w1 = switch w"
      by simp_all
    have unf: "reliable_loop interval init_time power_record w =
        (case x of
           Returned u \<Rightarrow>
             (case y of
                Returned next_record \<Rightarrow> reliable_loop interval init_time next_record w2
              | Raised e \<Rightarrow> (Raised e, w2)
              | Pending \<Rightarrow> (Pending, w2)
              | Diverged \<Rightarrow> (Diverged, w2))
         | Raised e \<Rightarrow> (Raised e, w1)
         | Pending \<Rightarrow> (Pending, w1)
         | Diverged \<Rightarrow> (Diverged, w1))"
      by (subst reliable_loop.simps) (simp add: True s g split: outcome.splits)
    show ?thesis
    proof (cases "\<exists>u next_record. x = Returned u \<and> y = Returned next_record")
      case True
      then obtain u next_record where xy: "x = Returned u" "y = Returned next_record"
        by blast
      with unf "1.prems" have "reliable_loop interval init_time next_record w2 = (r, w')"
        by simp
      from "1.IH" [OF \<open>record_time power_record = init_time\<close> s [symmetric] xy(1)
          g [symmetric] xy(2) this] f
      show ?thesis by simp
    next
      case False
      with unf "1.prems" f show ?thesis
        by (auto split: outcome.splits)
    qed
  qed
qed

lemma get_reliable_power_record_frame:
  "get_reliable_power_record interval w = (r, w') \<Longrightarrow>
     commands w' = commands w \<and> switch w' = switch w"
  by (auto simp add: get_reliable_power_record_def and_then_def
      split: prod.splits outcome.splits
      dest!: get_latest_power_record_frame reliable_loop_frame)

lemma get_latest_power_record_Returned:
  assumes "get_latest_power_record w = (Returned r, w')"
  shows "\<exists>s. script w = s # script w' \<and> record_time r = datatime s
           \<and> fetched w' = Suc (fetched w)"
  using assms
  by (auto simp add: get_latest_power_record_def and_then_def get_power_stats_def now_def Let_def
      split: list.splits)

lemma get_latest_power_record_Cons:
  assumes "script w = s # rest" and "data s \<noteq> []"
  shows "\<exists>r w'. get_latest_power_record w = (Returned r, w') \<and> script w' = rest
           \<and> record_time r = datatime s \<and> power_val r = of_int (hd (data s)) / 100
           \<and> fetched w' = Suc (fetched w)"
  using assms
  by (auto simp add: get_latest_power_record_def and_then_def get_power_stats_def now_def Let_def
      split: list.splits)

lemma sleep_Returned:
  "0 \<le> secs \<Longrightarrow> sleep secs w = (Returned (), w\<lparr>slept := slept w @ [secs]\<rparr>)"
  by (simp add: sleep_def)

lemma reliable_loop_Returned:
  assumes "reliable_loop interval init_time power_record w = (Returned r, w')"
    and "record_time power_record = init_time"
  shows "\<exists>pre s. script w = pre @ s # script w' \<and> (\<forall>x\<in>set pre. datatime x = init_time)
           \<and> datatime s \<noteq> init_time \<and> record_time r = datatime s
           \<and> fetched w' = fetched w + length pre + 1"
  using assms
proof (induction interval init_time power_record w rule: reliable_loop.induct)
  case (1 interval init_time power_record w)
  from "1.prems" obtain u w1 next_record w2 where
    s: "sleep interval w = (Returned u, w1)"
    and g: "get_latest_power_record w1 = (Returned next_record, w2)"
    and l: "reliable_loop interval init_time next_record w2 = (Returned r, w')"
    by (subst (asm) reliable_loop.simps) (auto split: prod.splits outcome.splits)
  from sleep_frame [OF s] have w1: "script w1 = script w" "fetched w1 = fetched w"
    by simp_all
  from get_latest_power_record_Returned [OF g] w1 obtain a where
    a: "script w = a # script w2" "record_time next_record = datatime a"
      "fetched w2 = Suc (fetched w)"
    by auto
  show ?case
  proof (cases "record_time next_record = init_time")
    case True
    from "1.IH" [OF "1.prems"(2) s [symmetric] refl g [symmetric] refl l True]
    obtain pre s' where "script w2 = pre @ s' # script w'" "\<forall>x\<in>set pre. datatime x = init_time"
      "datatime s' \<noteq> init_time" "record_time r = datatime s'"
      "fetched w' = fetched w2 + length pre + 1"
      by auto
    with a True have "script w = (a # pre) @ s' # script w'
        \<and> (\<forall>x\<in>set (a # pre). datatime x = init_time)
        \<and> datatime s' \<noteq> init_time \<and> record_time r = datatime s'
        \<and> fetched w' = fetched w + length (a # pre) + 1"
      by simp
    then show ?thesis by blast
  next
    case False
    with l have "r = next_record" "w' = w2"
      by (simp_all add: reliable_loop.simps)
    with a False have "script w = [] @ a # script w'
        \<and> (\<forall>x\<in>set []. datatime x = init_time)
        \<and> datatime a \<noteq> init_time \<and> record_time r = datatime a
        \<and> fetched w' = fetched w + length ([] :: power_stats list) + 1"
      by simp
    then show ?thesis by blast
  qed
qed

lemma get_reliable_power_record_Returned:
  assumes "get_reliable_power_record interval w = (Returned r, w')"
  shows "\<exists>first pre s. script w = first # pre @ s # script w'
           \<and> (\<forall>x\<in>set pre. datatime x = datatime first)
           \<and> datatime s \<noteq> datatime first \<and> record_time r = datatime s
           \<and> fetched w' = fetched w + length pre + 2"
proof -
  from assms obtain r1 w1 r2 w2 where
    g1: "get_latest_power_record w = (Returned r1, w1)"
    and g2: "get_latest_power_record w1 = (Returned r2, w2)"
    and l: "reliable_loop interval (record_time r1) r2 w2 = (Returned r, w')"
    by (auto simp add: get_reliable_power_record_def and_then_def
        split: prod.splits outcome.splits)
  from get_latest_power_record_Returned [OF g1] obtain a where
    a: "script w = a # script w1" "record_time r1 = datatime a" "fetched w1 = Suc (fetched w)"
    by auto
  from get_latest_power_record_Returned [OF g2] obtain b where
    b: "script w1 = b # script w2" "record_time r2 = datatime b" "fetched w2 = Suc (fetched w1)"
    by auto
  show ?thesis
  proof (cases "record_time r2 = record_time r1")
    case True
    from reliable_loop_Returned [OF l True] obtain pre s where
      "script w2 = pre @ s # script w'" "\<forall>x\<in>set pre. datatime x = record_time r1"
      "datatime s \<noteq> record_time r1" "record_time r = datatime s"
      "fetched w' = fetched w2 + length pre + 1"
      by auto
    with a b True have "script w = a # (b # pre) @ s # script w'
        \<and> (\<forall>x\<in>set (b # pre). datatime x = datatime a)
        \<and> datatime s \<noteq> datatime a \<and> record_time r = datatime s
        \<and> fetched w' = fetched w + length (b # pre) + 2"
      by simp
    then show ?thesis by blast
  next
    case False
    with l have "r = r2" "w' = w2"
      by (simp_all add: reliable_loop.simps)
    with a b False have "script w = a # [] @ b # script w'
        \<and> (\<forall>x\<in>set []. datatime x = datatime a)
        \<and> datatime b \<noteq> datatime a \<and> record_time r = datatime b
        \<and> fetched w' = fetched w + length ([] :: power_stats list) + 2"
      by simp
    then show ?thesis by blast
  qed
qed

lemma reliable_loop_returns:
  assumes "script w = pre @ s # rest"
    and "\<forall>x\<in>set pre. datatime x = init_time \<and> data x \<noteq> []"
    and "datatime s \<noteq> init_time" and "data s \<noteq> []" and "0 \<le> interval"
    and "record_time power_record = init_time"
  shows "\<exists>r w'. reliable_loop interval init_time power_record w = (Returned r, w')
           \<and> script w' = rest \<and> record_time r = datatime s
           \<and> power_val r = of_int (hd (data s)) / 100
           \<and> fetched w' = fetched w + length pre + 1"
  using assms
proof (induction pre arbitrary: power_record w)
  case Nil
  let ?w1 = "w\<lparr>slept := slept w @ [interval]\<rparr>"
  from Nil have "script ?w1 = s # rest" by simp
  from get_latest_power_record_Cons [OF this \<open>data s \<noteq> []\<close>] obtain r w' where
    g: "get_latest_power_record ?w1 = (Returned r, w')" "script w' = rest"
      "record_time r = datatime s" "power_val r = of_int (hd (data s)) / 100"
      "fetched w' = Suc (fetched ?w1)"
    by blast
  with Nil have "reliable_loop interval init_time power_record w = (Returned r, w')"
    by (subst reliable_loop.simps, simp add: sleep_Returned, subst reliable_loop.simps, simp)
  with g show ?case by simp
next
  case (Cons a pre)
  let ?w1 = "w\<lparr>slept := slept w @ [interval]\<rparr>"
  from Cons.prems have a: "datatime a = init_time" "data a \<noteq> []" by simp_all
  from Cons.prems have "script ?w1 = a # (pre @ s # rest)" by simp
  from get_latest_power_record_Cons [OF this a(2)] obtain r1 w1 where
    g: "get_latest_power_record ?w1 = (Returned r1, w1)" "script w1 = pre @ s # rest"
      "record_time r1 = datatime a" "fetched w1 = Suc (fetched ?w1)"
    by blast
  from Cons.prems have "\<forall>x\<in>set pre. datatime x = init_time \<and> data x \<noteq> []" by simp
  moreover from g(3) a(1) have "record_time r1 = init_time" by simp
  ultimately obtain r w' where
    l: "reliable_loop interval init_time r1 w1 = (Returned r, w')" "script w' = rest"
      "record_time r = datatime s" "power_val r = of_int (hd (data s)) / 100"
      "fetched w' = fetched w1 + length pre + 1"
    using Cons.IH [OF g(2) _ Cons.prems(3,4,5)] by blast
  from Cons.prems g(1) l(1)
  have "reliable_loop interval init_time power_record w = (Returned r, w')"
    by (subst reliable_loop.simps) (simp add: sleep_Returned)
  with l g(4) show ?case by simp
qed

lemma get_reliable_power_record_returns:
  assumes "script w = first # pre @ s # rest"
    and "data first \<noteq> []"
    and "\<forall>x\<in>set pre. datatime x = datatime first \<and> data x \<noteq> []"
    and "datatime s \<noteq> datatime first" and "data s \<noteq> []" and "0 \<le> interval"
  shows "\<exists>r w'. get_reliable_power_record interval w = (Returned r, w')
           \<and> script w' = rest \<and> record_time r = datatime s
           \<and> power_val r = of_int (hd (data s)) / 100
           \<and> fetched w' = fetched w + length pre + 2"
proof -
  from get_latest_power_record_Cons [OF assms(1,2)] obtain r1 w1 where
    g1: "get_latest_power_record w = (Returned r1, w1)" "script w1 = pre @ s # rest"
      "record_time r1 = datatime first" "fetched w1 = Suc (fetched w)"
    by blast
  show ?thesis
  proof (cases pre)
    case Nil
    with g1 have "script w1 = s # rest" by simp
    from get_latest_power_record_Cons [OF this assms(5)] obtain r2 w2 where
      g2: "get_latest_power_record w1 = (Returned r2, w2)" "script w2 = rest"
        "record_time r2 = datatime s" "power_val r2 = of_int (hd (data s)) / 100"
        "fetched w2 = Suc (fetched w1)"
      by blast
    from g1 g2 assms(4) have "get_reliable_power_record interval w = (Returned r2, w2)"
      by (simp add: get_reliable_power_record_def and_then_def reliable_loop.simps)
    with g1 g2 Nil show ?thesis by simp
  next
    case (Cons b pre')
    with assms(3) have b: "datatime b = datatime first" "data b \<noteq> []"
      and pre': "\<forall>x\<in>set pre'. datatime x = datatime first \<and> data x \<noteq> []"
      by simp_all
    from g1 Cons have "script w1 = b # (pre' @ s # rest)" by simp
    from get_latest_power_record_Cons [OF this b(2)] obtain r2 w2 where
      g2: "get_latest_power_record w1 = (Returned r2, w2)" "script w2 = pre' @ s # rest"
        "record_time r2 = datatime b" "fetched w2 = Suc (fetched w1)"
      by blast
    from g2(3) b(1) have "record_time r2 = datatime first" by simp
    from reliable_loop_returns [OF g2(2) pre' assms(4,5,6) this]
    obtain r w' where
      l: "reliable_loop interval (datatime first) r2 w2 = (Returned r, w')" "script w' = rest"
        "record_time r = datatime s" "power_val r = of_int (hd (data s)) / 100"
        "fetched w' = fetched w2 + length pre' + 1"
      by blast
    from g1 g2 l(1) have "get_reliable_power_record interval w = (Returned r, w')"
      by (simp add: get_reliable_power_record_def and_then_def)
    with l g1 g2 Cons show ?thesis by simp
  qed
qed

text \<open>
  The scheduling loop ends when less than a cycle passes between two readings of the
  clock, and it ends with the first instant of the cycle that the clock has not passed.
\<close>

lemma exec_loop_ends:
  assumes "\<forall>i. clock w (Suc i) < clock w i + cycle_delta"
  shows "\<exists>k. exec_loop cycle_delta e w
             = Some (e + int k * cycle_delta, w\<lparr>ticks := ticks w + k + 1\<rparr>)
           \<and> clock w (ticks w + k) \<le> e + int k * cycle_delta
           \<and> (\<forall>j<k. e + int j * cycle_delta < clock w (ticks w + j))"
  using assms
proof (induction "nat (clock w (ticks w) - e)" arbitrary: e w rule: less_induct)
  case less
  have nw: "fst (now w) = clock w (ticks w)" "snd (now w) = w\<lparr>ticks := Suc (ticks w)\<rparr>"
    by (simp_all add: now_def)
  show ?case
  proof (cases "e < clock w (ticks w)")
    case False
    then have "exec_loop cycle_delta e w = Some (e, w\<lparr>ticks := ticks w + 0 + 1\<rparr>)"
      by (subst exec_loop.simps) (simp add: nw Let_def)
    with False have "exec_loop cycle_delta e w
             = Some (e + int 0 * cycle_delta, w\<lparr>ticks := ticks w + 0 + 1\<rparr>)
           \<and> clock w (ticks w + 0) \<le> e + int 0 * cycle_delta
           \<and> (\<forall>j<0. e + int j * cycle_delta < clock w (ticks w + j))"
      by simp
    then show ?thesis by blast
  next
    case True
    let ?w1 = "w\<lparr>ticks := Suc (ticks w)\<rparr>"
    from less.prems have "clock w (Suc (ticks w)) < clock w (ticks w) + cycle_delta" by blast
    with True have "nat (clock ?w1 (ticks ?w1) - (e + cycle_delta)) < nat (clock w (ticks w) - e)"
      by simp
    moreover from less.prems have "\<forall>i. clock ?w1 (Suc i) < clock ?w1 i + cycle_delta"
      by simp
    ultimately obtain k where
      k: "exec_loop cycle_delta (e + cycle_delta) ?w1
             = Some (e + cycle_delta + int k * cycle_delta, ?w1\<lparr>ticks := ticks ?w1 + k + 1\<rparr>)"
        "clock ?w1 (ticks ?w1 + k) \<le> e + cycle_delta + int k * cycle_delta"
        "\<forall>j<k. e + cycle_delta + int j * cycle_delta < clock ?w1 (ticks ?w1 + j)"
      using less.hyps [of ?w1 "e + cycle_delta"] by blast
    from True have "exec_loop cycle_delta e w = exec_loop cycle_delta (e + cycle_delta) ?w1"
      by (subst exec_loop.simps) (simp add: nw Let_def)
    with k(1) have 1: "exec_loop cycle_delta e w
             = Some (e + int (Suc k) * cycle_delta, w\<lparr>ticks := ticks w + Suc k + 1\<rparr>)"
      by (simp add: algebra_simps)
    from k(2) have 2: "clock w (ticks w + Suc k) \<le> e + int (Suc k) * cycle_delta"
      by (simp add: algebra_simps)
    have 3: "\<forall>j<Suc k. e + int j * cycle_delta < clock w (ticks w + j)"
    proof (intro allI impI)
      fix j
      assume j: "j < Suc k"
      show "e + int j * cycle_delta < clock w (ticks w + j)"
      proof (cases j)
        case 0
        with True show ?thesis by simp
      next
        case (Suc j')
        with j have "j' < k" by simp
        with k(3) have "e + cycle_delta + int j' * cycle_delta < clock ?w1 (ticks ?w1 + j')"
          by blast
        with Suc show ?thesis by (simp add: algebra_simps)
      qed
    qed
    from 1 2 3 show ?thesis by blast
  qed
qed

lemma main_loop_stop:
  "\<not> switch_is_on st \<Longrightarrow> main_loop idle al p pil st w = (Returned (), st, w)"
  by (simp add: main_loop.simps)

lemma main_loop_step:
  assumes "switch_is_on st" and "get_next_power_record (base_time st) 10 w = (Returned pr, w1)"
    and "power_update p = None"
  shows "main_loop idle al p pil st w
           = main_loop idle al p pil (fst (loop_body idle al pil pr st w1))
               (snd (loop_body idle al pil pr st w1))"
  using assms by (subst main_loop.simps) (simp split: prod.splits)

lemma main_loop_blocked:
  assumes "switch_is_on st" and "get_next_power_record (base_time st) 10 w = (x, w1)"
    and "(\<forall>pr. x \<noteq> Returned pr) \<or> power_update p \<noteq> None"
  shows "fst (snd (main_loop idle al p pil st w)) = st
       \<and> snd (snd (main_loop idle al p pil st w)) = w1
       \<and> fst (main_loop idle al p pil st w) \<noteq> Returned ()"
  using assms by (subst (1 2 3) main_loop.simps) (auto split: outcome.splits option.splits)

text \<open>An invariant of the loop: a relation between the state at a loop head and any later one.\<close>

lemma main_loop_rule:
  assumes stop: "\<And>st w. \<not> switch_is_on st \<Longrightarrow> R st w (Returned ()) st w"
    and blocked: "\<And>st w x w1 out. switch_is_on st \<Longrightarrow>
        get_next_power_record (base_time st) 10 w = (x, w1) \<Longrightarrow> out \<noteq> Returned () \<Longrightarrow>
        R st w out st w1"
    and step: "\<And>st w pr w1 out st' w'. switch_is_on st \<Longrightarrow>
        get_next_power_record (base_time st) 10 w = (Returned pr, w1) \<Longrightarrow>
        R (fst (loop_body idle al pil pr st w1)) (snd (loop_body idle al pil pr st w1)) out st' w' \<Longrightarrow>
        R st w out st' w'"
  shows "R st w (fst (main_loop idle al p pil st w)) (fst (snd (main_loop idle al p pil st w)))
           (snd (snd (main_loop idle al p pil st w)))"
  using assms
proof (induction idle al p pil st w rule: main_loop.induct)
  case (1 idle al p pil st w)
  note stop = "1.prems"(1) and blocked = "1.prems"(2) and step = "1.prems"(3)
  show ?case
  proof (cases "switch_is_on st")
    case False
    then show ?thesis by (simp add: main_loop_stop stop)
  next
    case True
    obtain x w1 where g: "get_next_power_record (base_time st) 10 w = (x, w1)"
      by (cases "get_next_power_record (base_time st) 10 w")
    show ?thesis
    proof (cases "(\<forall>pr. x \<noteq> Returned pr) \<or> power_update p \<noteq> None")
      case True
      from main_loop_blocked [OF \<open>switch_is_on st\<close> g True, of idle al pil]
        blocked [OF \<open>switch_is_on st\<close> g]
      show ?thesis by simp
    next
      case False
      then obtain pr where x: "x = Returned pr" and pu: "power_update p = None"
        by blast
      obtain st2 w2 where lb: "loop_body idle al pil pr st w1 = (st2, w2)"
        by (cases "loop_body idle al pil pr st w1")
      from "1.IH" [OF \<open>switch_is_on st\<close> g [symmetric] x pu lb [symmetric] "1.prems"]
      have "R st2 w2 (fst (main_loop idle al p pil st2 w2))
          (fst (snd (main_loop idle al p pil st2 w2))) (snd (snd (main_loop idle al p pil st2 w2)))" .
      with step [OF \<open>switch_is_on st\<close> g [unfolded x]] lb
        main_loop_step [OF \<open>switch_is_on st\<close> g [unfolded x] pu, of idle al pil]
      show ?thesis by simp
    qed
  qed
qed

lemma loop_body_lower_bound:
  "lower_bound st \<le> lower_bound (fst (loop_body idle al pil pr st w))"
  by (simp add: loop_body_def adjust_parameters_def Let_def)

lemma loop_body_increment:
  "increment (fst (loop_body idle al pil pr st w)) = increment st
   \<or> increment (fst (loop_body idle al pil pr st w)) = increment st / 2"
  by (simp add: loop_body_def adjust_parameters_def Let_def)

lemma loop_body_commands:
  "(switch_is_on (fst (loop_body idle al pil pr st w))
      \<and> commands (snd (loop_body idle al pil pr st w)) = commands w)
   \<or> (\<not> switch_is_on (fst (loop_body idle al pil pr st w))
      \<and> commands (snd (loop_body idle al pil pr st w)) = commands w @ [False])"
  by (simp add: loop_body_def adjust_parameters_def turn_off_if_idle_def set_switch_def Let_def)

lemma main_loop_lower_bound:
  "lower_bound st \<le> lower_bound (fst (snd (main_loop idle al p pil st w)))"
proof (rule main_loop_rule [where R = "\<lambda>st w out st' w'. lower_bound st \<le> lower_bound st'"])
  fix st :: sync and w w1 :: world and pr out and st' :: sync and w' :: world
  assume "lower_bound (fst (loop_body idle al pil pr st w1)) \<le> lower_bound st'"
  with loop_body_lower_bound [of st idle al pil pr w1]
  show "lower_bound st \<le> lower_bound st'" by simp
qed simp_all

lemma main_loop_increment:
  "\<exists>k. increment (fst (snd (main_loop idle al p pil st w))) = increment st / 2 ^ k"
proof (rule main_loop_rule [where R = "\<lambda>st w out st' w'. \<exists>k. increment st' = increment st / 2 ^ k"])
  fix st :: sync and w :: world
  have "increment st = increment st / 2 ^ 0" by simp
  then show "\<exists>k. increment st = increment st / 2 ^ k" by blast
  then show "\<exists>k. increment st = increment st / 2 ^ k" .
next
  fix st :: sync and w w1 :: world and pr and out :: "unit outcome" and st' :: sync and w' :: world
  assume "\<exists>k. increment st' = increment (fst (loop_body idle al pil pr st w1)) / 2 ^ k"
  then obtain k where k: "increment st' = increment (fst (loop_body idle al pil pr st w1)) / 2 ^ k"
    by blast
  from loop_body_increment [of idle al pil pr st w1]
  show "\<exists>k. increment st' = increment st / 2 ^ k"
  proof
    assume "increment (fst (loop_body idle al pil pr st w1)) = increment st"
    with k show ?thesis by auto
  next
    assume "increment (fst (loop_body idle al pil pr st w1)) = increment st / 2"
    with k have "increment st' = increment st / 2 ^ Suc k" by simp
    then show ?thesis by blast
  qed
qed

lemma main_loop_commands:
  "commands (snd (snd (main_loop idle al p pil st w))) = commands w
   \<or> (commands (snd (snd (main_loop idle al p pil st w))) = commands w @ [False]
      \<and> fst (main_loop idle al p pil st w) = Returned ())"
proof -
  let ?R = "\<lambda>st w out st' w'.
      (\<not> switch_is_on st \<longrightarrow> w' = w \<and> out = Returned ())
      \<and> (commands w' = commands w \<or> (commands w' = commands w @ [False] \<and> out = Returned ()))"
  have "?R st w (fst (main_loop idle al p pil st w)) (fst (snd (main_loop idle al p pil st w)))
      (snd (snd (main_loop idle al p pil st w)))"
  proof (rule main_loop_rule [where R = ?R])
    fix st :: sync and w w1 :: world and x :: "power_record outcome" and out :: "unit outcome"
    assume "switch_is_on st" and "get_next_power_record (base_time st) 10 w = (x, w1)"
    with get_next_power_record_frame [of "base_time st" 10 w x w1]
    show "?R st w out st w1"
      by simp
  next
    fix st :: sync and w w1 :: world and pr and out :: "unit outcome" and st' :: sync
      and w' :: world
    assume on: "switch_is_on st"
      and g: "get_next_power_record (base_time st) 10 w = (Returned pr, w1)"
      and r: "?R (fst (loop_body idle al pil pr st w1)) (snd (loop_body idle al pil pr st w1))
          out st' w'"
    from get_next_power_record_frame [OF g] have "commands w1 = commands w"
      by simp
    with r loop_body_commands [of idle al pil pr st w1] on
    show "?R st w out st' w'"
      by auto
  qed simp
  then show ?thesis by simp
qed






lemma halved_le: "0 \<le> (x::real) \<Longrightarrow> x / 2 ^ k \<le> x"
proof -
  assume x: "0 \<le> x"
  have "(1::real) \<le> 2 ^ k" by simp
  with x have "x * 1 \<le> x * 2 ^ k" by (rule mult_left_mono [rotated]) 
  then show ?thesis by (simp add: field_simps)
qed

lemma loop_body_anomalous:
  assumes "\<not> (9 < latency pr \<and> latency pr < 12.5)" and "\<not> (0 < latency pr \<and> latency pr < 2.5)"
  shows "increment (fst (loop_body idle al pil pr st w)) = increment st
       \<and> lower_bound (fst (loop_body idle al pil pr st w)) = lower_bound st
       \<and> offset (fst (loop_body idle al pil pr st w)) = 0"
  using assms by (auto simp add: loop_body_def adjust_parameters_def Let_def)

text \<open>What an iteration that changes the increment has seen.\<close>

lemma loop_body_halving_condition:
  assumes "increment (fst (loop_body idle al pil pr st w)) \<noteq> increment st"
  shows "pil \<and> 0 < latency pr \<and> latency pr < 2.5 \<and> offset st - increment st = lower_bound st
       \<and> increment (fst (loop_body idle al pil pr st w)) = increment st / 2"
  using assms by (auto simp add: loop_body_def adjust_parameters_def Let_def split: if_splits)

text \<open>The local variables after three and after four iterations of that run.\<close>

lemmas run_defs =
  main_loop.simps get_next_power_record_def exec_loop.simps now_def sleep_def
  and_then_def get_latest_power_record_def get_power_stats_def loop_body_def
  turn_off_if_idle_def adjust_parameters_def nudge_timestamp_def timedelta_def
  round_half_even_def total_seconds_def power_update_def precision_is_low_init_def
  precision_floor_def init_sync_def Let_def run_readings_def run_clock_def run_answers_def
  run_world_def run_first_record_def get_reliable_power_record_def reliable_loop.simps
  turn_off_when_idle_def get_switch_state_def set_switch_def demo_readings_def demo_clock_def
  demo_answers_def demo_world_def

lemma run_after_three:
  "fst (snd (main_loop 5 1 1 (precision_is_low_init 1) (init_sync run_first_record True)
       (run_world 3)))
   = \<lparr>base_time = 30062500, offset = 1 / 16, lower_bound = 0, increment = 1 / 16,
      switch_is_on = True\<rparr>"
  by (simp add: run_defs)

lemma run_after_four:
  "fst (snd (main_loop 5 1 1 (precision_is_low_init 1) (init_sync run_first_record True)
       (run_world 4)))
   = \<lparr>base_time = 40031250, offset = 1 / 32, lower_bound = 0, increment = 1 / 32,
      switch_is_on = True\<rparr>"
  by (simp add: run_defs)

text \<open>The clock of the run never goes back.\<close>

lemma run_clock_mono: "i \<le> j \<Longrightarrow> run_clock i \<le> run_clock j"
proof -
  assume ij: "i \<le> j"
  have s: "sorted run_readings" and b: "\<forall>x\<in>set run_readings. x \<le> 41000000"
    by (simp_all add: run_readings_def)
  show ?thesis
  proof (cases "j < length run_readings")
    case True
    with ij s show ?thesis
      by (simp add: run_clock_def sorted_nth_mono)
  next
    case False
    with b show ?thesis
      by (simp add: run_clock_def)
  qed
qed

text \<open>Less than a cycle passes between two readings of that clock.\<close>

lemma run_clock_step: "run_clock (Suc i) < run_clock i + 10000000"
proof (cases "i < 20")
  case True
  have "\<forall>i<20. run_readings ! Suc i < run_readings ! i + 10000000"
    by (simp add: run_readings_def eval_nat_numeral All_less_Suc2)
  with True show ?thesis
    by (simp add: run_clock_def run_readings_def)
next
  case False
  then show ?thesis
    by (cases "i = 20") (simp_all add: run_clock_def run_readings_def)
qed

text \<open>The first scheduling of that run.\<close>

lemma first_scheduling:
  "exec_loop (timedelta 10) 0 (run_world 1) = Some (10000000, (run_world 1)\<lparr>ticks := 2\<rparr>)"
  by (simp add: run_defs)

text \<open>The recorded run, and a request of the loop answered 5.82 s late.\<close>

lemma demo_run:
  "turn_off_when_idle 5 1 3 demo_world
   = (Returned (),
      \<lparr>clock = demo_clock, ticks = 20, script = [], switch = False, fetched = 5,
       commands = [False], slept = [429 / 50, 943 / 100, 1813 / 200]\<rparr>)"
  by (simp add: run_defs)












section \<open>When the switch is turned off\<close>

text \<open>
  Claim C1, as the code has it. \<open>turn_off_if_idle\<close> gives the final switch state: it
  returns \<open>False\<close> and sends \<open>set_switch(False)\<close> exactly when the power is below the
  idle threshold and the latency lies strictly between 0 and the allowed latency; in
  every other case it returns \<open>True\<close> and leaves the world as it was.
\<close>

theorem turn_off_if_idle_contract:
  "(fst (turn_off_if_idle idle_threshold r allowed_latency w) = False
      \<and> commands (snd (turn_off_if_idle idle_threshold r allowed_latency w)) = commands w @ [False])
     = (power_val r < idle_threshold \<and> 0 < latency r \<and> latency r < allowed_latency)
   \<and> (fst (turn_off_if_idle idle_threshold r allowed_latency w) = True
      \<and> snd (turn_off_if_idle idle_threshold r allowed_latency w) = w)
     = (\<not> (power_val r < idle_threshold \<and> 0 < latency r \<and> latency r < allowed_latency))"
  by (auto simp add: turn_off_if_idle_def set_switch_def Let_def)

text \<open>
  Claim C1 as the specification words it (the result is \<open>True\<close> exactly when the switch
  is turned off) fails: 3 W against a threshold of 5 W, seen half a second late with one second
  allowed, turns the switch off and returns \<open>False\<close>.
\<close>

theorem turn_off_if_idle_returns_false_when_off:
  "\<not> ((fst (turn_off_if_idle 5
            \<lparr>power_val = 3, record_time = 0, request_time = 0, response_time = 500000,
             duration = 1 / 2, latency = 1 / 2\<rparr> 1
            \<lparr>clock = int, ticks = 0, script = [], switch = True, fetched = 0,
             commands = [], slept = []\<rparr>) = True)
        = ((3::real) < 5 \<and> (0::real) < 1 / 2 \<and> (1 / 2 :: real) < 1))"
  by (simp add: turn_off_if_idle_def set_switch_def Let_def)

section \<open>Halving the increment\<close>

text \<open>
  Claim C2 asks that the increment is halved only while it exceeds
  \<open>10**(-cycle_detection_precision)\<close>. The flag \<open>precision_is_low\<close> is computed once,
  before the loop, and never again. With precision 1 the floor is 0.1; in the run of a
  switch that is never idle the increment is 1/16 after three iterations, the fourth
  record arrives one second late with \<open>offset - increment = lower_bound\<close>, and the
  increment is halved again, to 1/32.
\<close>

theorem stale_precision_flag_halves_below_floor:
  "precision_floor 1 = 1 / 10
   \<and> fst (snd (main_loop 5 1 1 (precision_is_low_init 1) (init_sync run_first_record True)
        (run_world 3)))
      = \<lparr>base_time = 30062500, offset = 1 / 16, lower_bound = 0, increment = 1 / 16,
         switch_is_on = True\<rparr>
   \<and> \<not> (1 / 16 > precision_floor 1)
   \<and> fst (snd (main_loop 5 1 1 (precision_is_low_init 1) (init_sync run_first_record True)
        (run_world 4)))
      = \<lparr>base_time = 40031250, offset = 1 / 32, lower_bound = 0, increment = 1 / 32,
         switch_is_on = True\<rparr>
   \<and> increment (fst (loop_body 5 1 (precision_is_low_init 1)
        \<lparr>power_val = 42736 / 100, record_time = 40000000, request_time = 40062500,
         response_time = 41000000, duration = 15 / 16, latency = 1\<rparr>
        \<lparr>base_time = 30062500, offset = 1 / 16, lower_bound = 0, increment = 1 / 16,
         switch_is_on = True\<rparr>
        (run_world 0))) = 1 / 32"
proof (intro conjI)
  show "precision_floor 1 = 1 / 10"
    by (simp add: precision_floor_def)
  show "\<not> (1 / 16 > precision_floor 1)"
    by (simp add: precision_floor_def)
  show "fst (snd (main_loop 5 1 1 (precision_is_low_init 1) (init_sync run_first_record True)
        (run_world 3)))
      = \<lparr>base_time = 30062500, offset = 1 / 16, lower_bound = 0, increment = 1 / 16,
         switch_is_on = True\<rparr>"
    by (rule run_after_three)
  show "fst (snd (main_loop 5 1 1 (precision_is_low_init 1) (init_sync run_first_record True)
        (run_world 4)))
      = \<lparr>base_time = 40031250, offset = 1 / 32, lower_bound = 0, increment = 1 / 32,
         switch_is_on = True\<rparr>"
    by (rule run_after_four)
  show "increment (fst (loop_body 5 1 (precision_is_low_init 1)
        \<lparr>power_val = 42736 / 100, record_time = 40000000, request_time = 40062500,
         response_time = 41000000, duration = 15 / 16, latency = 1\<rparr>
        \<lparr>base_time = 30062500, offset = 1 / 16, lower_bound = 0, increment = 1 / 16,
         switch_is_on = True\<rparr>
        (run_world 0))) = 1 / 32"
    by (simp add: precision_floor_def precision_is_low_init_def loop_body_def
        adjust_parameters_def turn_off_if_idle_def Let_def)
qed

section \<open>The first reliable record\<close>

text \<open>
  Claim C3. \<open>get_reliable_power_record\<close> does not return while every answer carries the
  same time stamp. When it returns, it has sent at least two requests, every answer
  before the last carries the time stamp of the first, and the record returned is built
  from the last answer, whose time stamp differs from the one of the answer before it.
  When the first two answers agree and the third differs, it returns the third record
  after exactly three requests.
\<close>

theorem get_reliable_power_record_return_condition:
  "((\<forall>s\<in>set (script w). datatime s = t) \<longrightarrow>
      (\<forall>r. fst (get_reliable_power_record interval w) \<noteq> Returned r))
   \<and> (get_reliable_power_record interval w = (Returned r, w') \<longrightarrow>
        (\<exists>first pre s. script w = first # pre @ s # script w'
           \<and> (\<forall>x\<in>set pre. datatime x = datatime first)
           \<and> record_time r = datatime s
           \<and> datatime s \<noteq> datatime (last (first # pre))
           \<and> fetched w' = fetched w + length pre + 2))
   \<and> (script w = s1 # s2 # s3 # rest \<and> datatime s2 = datatime s1 \<and> datatime s3 \<noteq> datatime s2
        \<and> data s1 \<noteq> [] \<and> data s2 \<noteq> [] \<and> data s3 \<noteq> [] \<and> 0 \<le> interval \<longrightarrow>
        (\<exists>r3 w3. get_reliable_power_record interval w = (Returned r3, w3)
           \<and> fetched w3 = fetched w + 3 \<and> script w3 = rest
           \<and> record_time r3 = datatime s3 \<and> power_val r3 = of_int (hd (data s3)) / 100))"
proof (intro conjI impI allI)
  fix r0
  assume c: "\<forall>s\<in>set (script w). datatime s = t"
  show "fst (get_reliable_power_record interval w) \<noteq> Returned r0"
  proof
    assume "fst (get_reliable_power_record interval w) = Returned r0"
    then obtain w0 where "get_reliable_power_record interval w = (Returned r0, w0)"
      by (cases "get_reliable_power_record interval w") simp
    from get_reliable_power_record_Returned [OF this] obtain first pre s where
      "script w = first # pre @ s # script w0" "datatime s \<noteq> datatime first"
      by blast
    with c show False by simp
  qed
next
  assume "get_reliable_power_record interval w = (Returned r, w')"
  from get_reliable_power_record_Returned [OF this] obtain first pre s where
    h: "script w = first # pre @ s # script w'" "\<forall>x\<in>set pre. datatime x = datatime first"
      "datatime s \<noteq> datatime first" "record_time r = datatime s"
      "fetched w' = fetched w + length pre + 2"
    by blast
  have "datatime (last (first # pre)) = datatime first"
    using h(2) by (cases pre rule: rev_cases) simp_all
  with h show "\<exists>first pre s. script w = first # pre @ s # script w'
           \<and> (\<forall>x\<in>set pre. datatime x = datatime first)
           \<and> record_time r = datatime s
           \<and> datatime s \<noteq> datatime (last (first # pre))
           \<and> fetched w' = fetched w + length pre + 2"
    by metis
next
  assume a: "script w = s1 # s2 # s3 # rest \<and> datatime s2 = datatime s1 \<and> datatime s3 \<noteq> datatime s2
        \<and> data s1 \<noteq> [] \<and> data s2 \<noteq> [] \<and> data s3 \<noteq> [] \<and> 0 \<le> interval"
  then have "script w = s1 # [s2] @ s3 # rest" "data s1 \<noteq> []"
    "\<forall>x\<in>set [s2]. datatime x = datatime s1 \<and> data x \<noteq> []"
    "datatime s3 \<noteq> datatime s1" "data s3 \<noteq> []" "0 \<le> interval"
    by simp_all
  from get_reliable_power_record_returns [OF this]
  show "\<exists>r3 w3. get_reliable_power_record interval w = (Returned r3, w3)
           \<and> fetched w3 = fetched w + 3 \<and> script w3 = rest
           \<and> record_time r3 = datatime s3 \<and> power_val r3 = of_int (hd (data s3)) / 100"
    by auto
qed

text \<open>Two equal answers and no more; two equal answers and a third of ten seconds later.\<close>

theorem get_reliable_power_record_return_condition_witness:
  "(\<forall>r. fst (get_reliable_power_record 2
        \<lparr>clock = int, ticks = 0,
         script = [\<lparr>data = [42736], datatime = 0\<rparr>, \<lparr>data = [42736], datatime = 0\<rparr>],
         switch = True, fetched = 0, commands = [], slept = []\<rparr>) \<noteq> Returned r)
   \<and> (\<exists>r3 w3. get_reliable_power_record 2
        \<lparr>clock = int, ticks = 0,
         script = [\<lparr>data = [42736], datatime = 0\<rparr>, \<lparr>data = [42736], datatime = 0\<rparr>,
                   \<lparr>data = [293], datatime = 10000000\<rparr>],
         switch = True, fetched = 0, commands = [], slept = []\<rparr> = (Returned r3, w3)
        \<and> fetched w3 = 3 \<and> script w3 = [] \<and> record_time r3 = 10000000 \<and> power_val r3 = 293 / 100)
   \<and> (\<exists>first pre s.
        [\<lparr>data = [42736], datatime = 0\<rparr>, \<lparr>data = [42736], datatime = 0\<rparr>,
         \<lparr>data = [293], datatime = 10000000\<rparr>] = first # pre @ [s]
        \<and> (10000000::int) = datatime s \<and> datatime s \<noteq> datatime (last (first # pre)))"
proof -
  let ?s = "\<lparr>data = [42736], datatime = 0\<rparr>"
  let ?s3 = "\<lparr>data = [293], datatime = 10000000\<rparr>"
  let ?wA = "\<lparr>clock = int, ticks = 0, script = [?s, ?s],
         switch = True, fetched = 0, commands = [], slept = []\<rparr>"
  let ?wB = "\<lparr>clock = int, ticks = 0, script = [?s, ?s, ?s3],
         switch = True, fetched = 0, commands = [], slept = []\<rparr>"
  let ?r = "\<lparr>power_val = 293 / 100, record_time = 10000000, request_time = 4,
      response_time = 5, duration = 1 / 1000000, latency = - (1999999 / 200000)\<rparr>"
  let ?w' = "\<lparr>clock = int, ticks = 6, script = [], switch = True, fetched = 3,
     commands = [], slept = [2]\<rparr>"
  have run: "get_reliable_power_record 2 ?wB = (Returned ?r, ?w')"
    by (simp add: get_reliable_power_record_def and_then_def get_latest_power_record_def
        get_power_stats_def now_def reliable_loop.simps sleep_def Let_def total_seconds_def)
  have a: "\<forall>r. fst (get_reliable_power_record 2 ?wA) \<noteq> Returned r"
    using get_reliable_power_record_return_condition [of ?wA 0 2]
    by simp
  have b: "\<exists>r3 w3. get_reliable_power_record 2 ?wB = (Returned r3, w3)
        \<and> fetched w3 = 3 \<and> script w3 = [] \<and> record_time r3 = 10000000 \<and> power_val r3 = 293 / 100"
    using get_reliable_power_record_return_condition [of ?wB _ 2 _ _ ?s ?s ?s3 "[]"]
    by simp
  have c: "\<exists>first pre s. [?s, ?s, ?s3] = first # pre @ [s]
        \<and> (10000000::int) = datatime s \<and> datatime s \<noteq> datatime (last (first # pre))"
    using get_reliable_power_record_return_condition [of ?wB _ 2 ?r ?w'] run
    by auto
  from a b c show ?thesis by blast
qed

section \<open>The latency bands\<close>

text \<open>
  In exact arithmetic an iteration whose record has a latency strictly between 9 s and
  12.5 s makes the lower bound the larger of the old lower bound and the old offset, adds
  the increment to the offset and leaves the increment.
\<close>

lemma loop_body_too_early:
  assumes "9 < latency power_record" and "latency power_record < 12.5"
  shows "lower_bound (fst (loop_body idle_threshold allowed_latency precision_is_low power_record st w))
           = max (lower_bound st) (offset st)
       \<and> offset (fst (loop_body idle_threshold allowed_latency precision_is_low power_record st w))
           = offset st + increment st
       \<and> increment (fst (loop_body idle_threshold allowed_latency precision_is_low power_record st w))
           = increment st"
  using assms by (simp add: loop_body_def adjust_parameters_def Let_def max.commute)


text \<open>
  Claim C5. The lower bound never decreases: not in one iteration, whatever the record,
  and not from any loop head of a run to any later point of that run, whatever the
  answers and the clock.
\<close>

theorem lower_bound_never_decreases:
  "lower_bound st \<le> lower_bound (fst (loop_body idle_threshold allowed_latency precision_is_low power_record st w))
   \<and> lower_bound st \<le> lower_bound (fst (snd (main_loop idle_threshold allowed_latency precision precision_is_low st w)))"
  by (simp add: loop_body_lower_bound main_loop_lower_bound)

text \<open>
  The run of the switch that is never idle: from the sentinel to 0 in three iterations,
  and no lower when the loop goes on from there.
\<close>

theorem lower_bound_never_decreases_witness:
  "lower_bound (init_sync run_first_record True) = - 1
   \<and> lower_bound (fst (snd (main_loop 5 1 1 (precision_is_low_init 1)
        (init_sync run_first_record True) (run_world 3)))) = 0
   \<and> lower_bound (fst (snd (main_loop 5 1 1 (precision_is_low_init 1)
        (init_sync run_first_record True) (run_world 3))))
      \<le> lower_bound (fst (snd (main_loop 5 1 1 (precision_is_low_init 1)
        (fst (snd (main_loop 5 1 1 (precision_is_low_init 1)
           (init_sync run_first_record True) (run_world 3))))
        (run_world 1))))"
proof -
  have "lower_bound (fst (snd (main_loop 5 1 1 (precision_is_low_init 1)
        (init_sync run_first_record True) (run_world 3)))) = 0"
    by (subst run_after_three) simp
  moreover have "lower_bound (init_sync run_first_record True) = - 1"
    by (simp add: init_sync_def)
  ultimately show ?thesis
    using lower_bound_never_decreases [where
        st = "fst (snd (main_loop 5 1 1 (precision_is_low_init 1)
           (init_sync run_first_record True) (run_world 3)))"
        and idle_threshold = 5 and allowed_latency = 1 and precision = 1
        and precision_is_low = "precision_is_low_init 1" and w = "run_world 1"]
    by blast
qed

section \<open>The wake time\<close>

text \<open>
  When the clock never goes back and less than a cycle passes between two of its readings,
  the loop of \<open>get_next_power_record\<close> ends with \<open>base + k * cycle\<close> for the least natural
  number \<open>k\<close> that makes it not earlier than the time read in the loop's last test;
  \<open>k = 0\<close> when the base time is not in the past. The clock is then read once more. If it
  has not passed that instant, the call sleeps for the time that is left and sends the
  request next; if it has, the call raises.
\<close>

lemma get_next_power_record_least_instant:
  assumes "\<forall>i j. i \<le> j \<longrightarrow> clock w i \<le> clock w j"
    and "\<forall>i. clock w (Suc i) < clock w i + timedelta cycle"
  shows "\<exists>k. exec_loop (timedelta cycle) base w
               = Some (base + int k * timedelta cycle, w\<lparr>ticks := ticks w + k + 1\<rparr>)
           \<and> clock w (ticks w + k) \<le> base + int k * timedelta cycle
           \<and> (\<forall>j. clock w (ticks w + k) \<le> base + int j * timedelta cycle \<longrightarrow> k \<le> j)
           \<and> (clock w (ticks w) \<le> base \<longrightarrow> k = 0)
           \<and> (clock w (ticks w + k + 1) \<le> base + int k * timedelta cycle \<longrightarrow>
                get_next_power_record base cycle w
                = get_latest_power_record
                   (w\<lparr>ticks := ticks w + k + 2,
                      slept := slept w @ [total_seconds
                        (base + int k * timedelta cycle - clock w (ticks w + k + 1))]\<rparr>))
           \<and> (base + int k * timedelta cycle < clock w (ticks w + k + 1) \<longrightarrow>
                get_next_power_record base cycle w
                = (Raised ValueError, w\<lparr>ticks := ticks w + k + 2\<rparr>))"
proof -
  from exec_loop_ends [OF assms(2), of base] obtain k where
    k: "exec_loop (timedelta cycle) base w
             = Some (base + int k * timedelta cycle, w\<lparr>ticks := ticks w + k + 1\<rparr>)"
      "clock w (ticks w + k) \<le> base + int k * timedelta cycle"
      "\<forall>j<k. base + int j * timedelta cycle < clock w (ticks w + j)"
    by blast
  have least: "\<forall>j. clock w (ticks w + k) \<le> base + int j * timedelta cycle \<longrightarrow> k \<le> j"
  proof (intro allI impI)
    fix j
    assume j: "clock w (ticks w + k) \<le> base + int j * timedelta cycle"
    show "k \<le> j"
    proof (rule ccontr)
      assume "\<not> k \<le> j"
      then have "j < k" by simp
      with k(3) have "base + int j * timedelta cycle < clock w (ticks w + j)" by blast
      also from \<open>j < k\<close> assms(1) have "clock w (ticks w + j) \<le> clock w (ticks w + k)"
        by simp
      finally show False using j by simp
    qed
  qed
  have first: "clock w (ticks w) \<le> base \<longrightarrow> k = 0"
  proof
    assume b: "clock w (ticks w) \<le> base"
    show "k = 0"
    proof (rule ccontr)
      assume "k \<noteq> 0"
      then have "0 < k" by simp
      with k(3) have "base + int 0 * timedelta cycle < clock w (ticks w + 0)" by blast
      with b show False by simp
    qed
  qed
  have fetch: "clock w (ticks w + k + 1) \<le> base + int k * timedelta cycle \<longrightarrow>
                get_next_power_record base cycle w
                = get_latest_power_record
                   (w\<lparr>ticks := ticks w + k + 2,
                      slept := slept w @ [total_seconds
                        (base + int k * timedelta cycle - clock w (ticks w + k + 1))]\<rparr>)"
  proof
    assume "clock w (ticks w + k + 1) \<le> base + int k * timedelta cycle"
    then have "0 \<le> base + int k * timedelta cycle - clock w (ticks w + k + 1)"
      by simp
    then have "0 \<le> total_seconds (base + int k * timedelta cycle - clock w (ticks w + k + 1))"
      unfolding total_seconds_def
      by (simp only: of_int_0_le_iff divide_nonneg_nonneg zero_le_numeral)
    with k(1) show "get_next_power_record base cycle w
                = get_latest_power_record
                   (w\<lparr>ticks := ticks w + k + 2,
                      slept := slept w @ [total_seconds
                        (base + int k * timedelta cycle - clock w (ticks w + k + 1))]\<rparr>)"
      by (simp add: get_next_power_record_def now_def Let_def and_then_def sleep_def)
  qed
  have late: "base + int k * timedelta cycle < clock w (ticks w + k + 1) \<longrightarrow>
                get_next_power_record base cycle w
                = (Raised ValueError, w\<lparr>ticks := ticks w + k + 2\<rparr>)"
  proof
    assume "base + int k * timedelta cycle < clock w (ticks w + k + 1)"
    then have "base + int k * timedelta cycle - clock w (ticks w + k + 1) < 0"
      by simp
    then have "total_seconds (base + int k * timedelta cycle - clock w (ticks w + k + 1)) < 0"
      unfolding total_seconds_def
      by (simp only: of_int_less_0_iff divide_neg_pos zero_less_numeral)
    with k(1) show "get_next_power_record base cycle w
                = (Raised ValueError, w\<lparr>ticks := ticks w + k + 2\<rparr>)"
      by (simp add: get_next_power_record_def now_def Let_def and_then_def sleep_def)
  qed
  from k(1,2) least first fetch late show ?thesis by blast
qed

text \<open>
  The first scheduling of the run above, at 1.42 s with a cycle of 10 s. Base time 0: the
  wake time is 10 s, 8.58 s away. Base time 2 s: the wake time is 2 s.
\<close>

lemma first_wake_time:
  "exec_loop (timedelta 10) 0 (run_world 1) = Some (10000000, (run_world 1)\<lparr>ticks := 2\<rparr>)
   \<and> clock (run_world 1) 1 \<le> 10000000
   \<and> get_next_power_record 0 10 (run_world 1)
      = get_latest_power_record ((run_world 1)\<lparr>ticks := 3, slept := [429 / 50]\<rparr>)
   \<and> exec_loop (timedelta 10) 2000000 (run_world 1)
      = Some (2000000, (run_world 1)\<lparr>ticks := 1\<rparr>)"
proof -
  let ?w = "run_world 1"
  have td: "timedelta 10 = 10000000"
    by (simp add: timedelta_def round_half_even_def Let_def)
  note w = run_world_def
  have h1: "\<forall>i j. i \<le> j \<longrightarrow> clock ?w i \<le> clock ?w j"
    by (simp add: w run_clock_mono)
  have h2: "\<forall>i. clock ?w (Suc i) < clock ?w i + timedelta 10"
    by (simp add: w td run_clock_step)
  note c = run_clock_def run_readings_def eval_nat_numeral
  from get_next_power_record_least_instant [OF h1 h2, of 0] obtain k where
    k: "exec_loop (timedelta 10) 0 ?w = Some (0 + int k * timedelta 10, ?w\<lparr>ticks := ticks ?w + k + 1\<rparr>)"
      "clock ?w (ticks ?w + k) \<le> 0 + int k * timedelta 10"
      "clock ?w (ticks ?w + k + 1) \<le> 0 + int k * timedelta 10 \<longrightarrow>
         get_next_power_record 0 10 ?w
         = get_latest_power_record
             (?w\<lparr>ticks := ticks ?w + k + 2,
                 slept := slept ?w @ [total_seconds (0 + int k * timedelta 10 - clock ?w (ticks ?w + k + 1))]\<rparr>)"
    by blast
  from k(1) first_scheduling have "int k * 10000000 = 10000000"
    by (simp add: td)
  then have k1: "k = 1" by simp
  from k(2) k1 have a: "clock ?w 1 \<le> 10000000"
    by (simp add: w td)
  from k(3) k1 have b: "get_next_power_record 0 10 ?w
      = get_latest_power_record (?w\<lparr>ticks := 3, slept := [429 / 50]\<rparr>)"
    by (simp add: w td c total_seconds_def)
  from get_next_power_record_least_instant [OF h1 h2, of 2000000] obtain k' where
    k': "exec_loop (timedelta 10) 2000000 ?w
           = Some (2000000 + int k' * timedelta 10, ?w\<lparr>ticks := ticks ?w + k' + 1\<rparr>)"
      "clock ?w (ticks ?w) \<le> 2000000 \<longrightarrow> k' = 0"
    by blast
  from k'(2) have "k' = 0" by (simp add: w c)
  with k'(1) have d: "exec_loop (timedelta 10) 2000000 ?w = Some (2000000, ?w\<lparr>ticks := 1\<rparr>)"
    by (simp add: w)
  from first_scheduling a b d show ?thesis by blast
qed

text \<open>
  Claim C6. The call does not always suspend until the wake instant and fetch there. The
  clock is read again after the loop has settled the instant, and nothing keeps it from
  having passed the instant in between. Base time 0 and a cycle of 10 s: the clock reads
  9.999999 s in the loop's two tests, so the wake instant is 10 s, and 10.000001 s for
  the sleep. The time to sleep is negative, \<open>time.sleep\<close> raises \<open>ValueError\<close>, and the
  call ends without a sleep and without a request.
\<close>

theorem get_next_power_record_raises_past_wake_time:
  "exec_loop (timedelta 10) 0 late_world = Some (10000000, late_world\<lparr>ticks := 2\<rparr>)
   \<and> clock late_world 1 = 9999999
   \<and> clock late_world 2 = 10000001
   \<and> get_next_power_record 0 10 late_world = (Raised ValueError, late_world\<lparr>ticks := 3\<rparr>)
   \<and> fetched (snd (get_next_power_record 0 10 late_world)) = 0
   \<and> slept (snd (get_next_power_record 0 10 late_world)) = []"
  by (simp add: run_defs late_readings_def late_clock_def late_world_def)

section \<open>The anomalous band\<close>




section \<open>The switch is already off\<close>

text \<open>
  Claim C8. When \<open>get_switch_state\<close> reports that the switch is off,
  \<open>turn_off_when_idle\<close> returns at once and leaves the world as it was: no request, no
  command, no sleep, no clock reading.
\<close>

theorem already_off_returns_immediately:
  assumes "\<not> switch w"
  shows "turn_off_when_idle idle_threshold allowed_latency precision w = (Returned (), w)"
  using assms by (simp add: turn_off_when_idle_def get_switch_state_def Let_def)

text \<open>The world of the recorded run with the switch off: five answers wait, none is asked for.\<close>

theorem already_off_returns_immediately_witness:
  "\<not> switch (demo_world\<lparr>switch := False\<rparr>)
   \<and> turn_off_when_idle 5 1 3 (demo_world\<lparr>switch := False\<rparr>)
       = (Returned (), demo_world\<lparr>switch := False\<rparr>)
   \<and> fetched (snd (turn_off_when_idle 5 1 3 (demo_world\<lparr>switch := False\<rparr>))) = 0
   \<and> commands (snd (turn_off_when_idle 5 1 3 (demo_world\<lparr>switch := False\<rparr>))) = []
   \<and> length (script (snd (turn_off_when_idle 5 1 3 (demo_world\<lparr>switch := False\<rparr>)))) = 5"
proof -
  have h: "\<not> switch (demo_world\<lparr>switch := False\<rparr>)" by simp
  from already_off_returns_immediately [OF h, of 5 1 3] h show ?thesis
    by (simp add: demo_world_def demo_answers_def)
qed

section \<open>The increment over a run\<close>

text \<open>
  Claim C9. From any loop head to any later point of the run the increment has only been
  halved, some number of times; starting from 1/4 it is never above 1/4, and a
  non-negative increment never grows, in one iteration or over a run. An iteration in the
  anomalous band sets the offset to 0 and leaves increment and lower bound as they were.
\<close>

theorem increment_only_halved:
  "(\<exists>k. increment (fst (snd (main_loop idle_threshold allowed_latency precision precision_is_low st w)))
          = increment st / 2 ^ k)
   \<and> increment (fst (snd (main_loop idle_threshold allowed_latency precision precision_is_low
         (init_sync first_record on) w))) \<le> 1 / 4
   \<and> (0 \<le> increment st \<longrightarrow>
        increment (fst (loop_body idle_threshold allowed_latency precision_is_low power_record st w))
          \<le> increment st
        \<and> increment (fst (snd (main_loop idle_threshold allowed_latency precision precision_is_low st w)))
          \<le> increment st)
   \<and> (\<not> (9 < latency power_record \<and> latency power_record < 12.5)
        \<and> \<not> (0 < latency power_record \<and> latency power_record < 2.5) \<longrightarrow>
        increment (fst (loop_body idle_threshold allowed_latency precision_is_low power_record st w))
          = increment st
        \<and> lower_bound (fst (loop_body idle_threshold allowed_latency precision_is_low power_record st w))
          = lower_bound st
        \<and> offset (fst (loop_body idle_threshold allowed_latency precision_is_low power_record st w)) = 0)"
proof (intro conjI impI)
  show "\<exists>k. increment (fst (snd (main_loop idle_threshold allowed_latency precision precision_is_low st w)))
          = increment st / 2 ^ k"
    by (rule main_loop_increment)
next
  from main_loop_increment [of idle_threshold allowed_latency precision precision_is_low
      "init_sync first_record on" w]
  obtain k where "increment (fst (snd (main_loop idle_threshold allowed_latency precision
      precision_is_low (init_sync first_record on) w))) = (1 / 4) / 2 ^ k"
    by (auto simp add: init_sync_def)
  with halved_le [of "1 / 4" k]
  show "increment (fst (snd (main_loop idle_threshold allowed_latency precision precision_is_low
         (init_sync first_record on) w))) \<le> 1 / 4"
    by simp
next
  assume x: "0 \<le> increment st"
  with loop_body_increment [of idle_threshold allowed_latency precision_is_low power_record st w]
  show "increment (fst (loop_body idle_threshold allowed_latency precision_is_low power_record st w))
          \<le> increment st"
    by auto
  from main_loop_increment [of idle_threshold allowed_latency precision precision_is_low st w]
  obtain k where "increment (fst (snd (main_loop idle_threshold allowed_latency precision
      precision_is_low st w))) = increment st / 2 ^ k"
    by blast
  with halved_le [OF x, of k]
  show "increment (fst (snd (main_loop idle_threshold allowed_latency precision precision_is_low st w)))
          \<le> increment st"
    by simp
next
  assume "\<not> (9 < latency power_record \<and> latency power_record < 12.5)
        \<and> \<not> (0 < latency power_record \<and> latency power_record < 2.5)"
  then have a: "\<not> (9 < latency power_record \<and> latency power_record < 12.5)"
    "\<not> (0 < latency power_record \<and> latency power_record < 2.5)"
    by blast+
  from loop_body_anomalous [OF a, of idle_threshold allowed_latency precision_is_low st w]
  show "increment (fst (loop_body idle_threshold allowed_latency precision_is_low power_record st w))
          = increment st"
    and "lower_bound (fst (loop_body idle_threshold allowed_latency precision_is_low power_record st w))
          = lower_bound st"
    and "offset (fst (loop_body idle_threshold allowed_latency precision_is_low power_record st w)) = 0"
    by simp_all
qed

text \<open>
  The run of the switch that is never idle: 1/16 after three iterations, which an answer
  5.82 s late would leave alone, and 1/32 after four.
\<close>

theorem increment_only_halved_witness:
  "(0::real) \<le> 1 / 16
   \<and> \<not> ((9::real) < 582 / 100 \<and> (582 / 100 :: real) < 12.5)
   \<and> \<not> ((0::real) < 582 / 100 \<and> (582 / 100 :: real) < 2.5)
   \<and> increment (fst (loop_body 5 1 True
        \<lparr>power_val = 42736 / 100, record_time = 5000000, request_time = 10000000,
         response_time = 10820000, duration = 82 / 100, latency = 582 / 100\<rparr>
        \<lparr>base_time = 30062500, offset = 1 / 16, lower_bound = 0, increment = 1 / 16,
         switch_is_on = True\<rparr>
        (run_world 0))) = 1 / 16
   \<and> offset (fst (loop_body 5 1 True
        \<lparr>power_val = 42736 / 100, record_time = 5000000, request_time = 10000000,
         response_time = 10820000, duration = 82 / 100, latency = 582 / 100\<rparr>
        \<lparr>base_time = 30062500, offset = 1 / 16, lower_bound = 0, increment = 1 / 16,
         switch_is_on = True\<rparr>
        (run_world 0))) = 0
   \<and> increment (fst (snd (main_loop 5 1 1 True
        \<lparr>base_time = 30062500, offset = 1 / 16, lower_bound = 0, increment = 1 / 16,
         switch_is_on = True\<rparr>
        (run_world 0)))) \<le> 1 / 16
   \<and> increment (fst (snd (main_loop 5 1 1 True (init_sync run_first_record True)
        (run_world 0)))) \<le> 1 / 4"
proof -
  let ?r = "\<lparr>power_val = 42736 / 100, record_time = 5000000, request_time = 10000000,
         response_time = 10820000, duration = 82 / 100, latency = 582 / 100\<rparr>"
  let ?st = "\<lparr>base_time = 30062500, offset = 1 / 16, lower_bound = 0, increment = 1 / 16,
         switch_is_on = True\<rparr>"
  note t = increment_only_halved [where st = ?st and power_record = ?r and idle_threshold = 5
      and allowed_latency = 1 and precision = 1 and precision_is_low = True
      and w = "run_world 0" and first_record = run_first_record and on = True]
  have h0: "0 \<le> increment ?st"
    and h1: "\<not> (9 < latency ?r \<and> latency ?r < 12.5) \<and> \<not> (0 < latency ?r \<and> latency ?r < 2.5)"
    by simp_all
  from t h0 have "increment (fst (snd (main_loop 5 1 1 True ?st (run_world 0)))) \<le> increment ?st"
    by blast
  moreover from t h1 have "increment (fst (loop_body 5 1 True ?r ?st (run_world 0))) = increment ?st"
    and "offset (fst (loop_body 5 1 True ?r ?st (run_world 0))) = 0"
    by blast+
  moreover from t have "increment (fst (snd (main_loop 5 1 1 True (init_sync run_first_record True)
        (run_world 0)))) \<le> 1 / 4"
    by blast
  ultimately show ?thesis by simp
qed

section \<open>Commands sent\<close>

text \<open>
  Claim C10. Over a run of \<open>turn_off_when_idle\<close>, as far as the scripted answers reach,
  either no command is sent or exactly one, \<open>set_switch(False)\<close>; when it has been sent
  the call has returned.
\<close>

theorem only_one_off_command:
  "commands (snd (turn_off_when_idle idle_threshold allowed_latency precision w)) = commands w
   \<or> (commands (snd (turn_off_when_idle idle_threshold allowed_latency precision w))
        = commands w @ [False]
      \<and> fst (turn_off_when_idle idle_threshold allowed_latency precision w) = Returned ())"
proof (cases "switch w")
  case False
  then show ?thesis
    by (simp add: turn_off_when_idle_def get_switch_state_def Let_def)
next
  case True
  obtain x w1 where g: "get_reliable_power_record 2 w = (x, w1)"
    by (cases "get_reliable_power_record 2 w")
  from get_reliable_power_record_frame [OF g] have c1: "commands w1 = commands w"
    by simp
  show ?thesis
  proof (cases "\<exists>pr. x = Returned pr \<and> power_update precision = None")
    case False
    with True g c1 show ?thesis
      by (auto simp add: turn_off_when_idle_def get_switch_state_def Let_def and_then_def
          split: outcome.splits option.splits)
  next
    case True
    then obtain pr where x: "x = Returned pr" and pu: "power_update precision = None"
      by blast
    let ?g = "turn_off_if_idle idle_threshold pr (1 / 2) w1"
    let ?m = "main_loop idle_threshold allowed_latency precision (precision_is_low_init precision)
        (init_sync pr (fst ?g)) (snd ?g)"
    from \<open>switch w\<close> g x pu
    have t: "turn_off_when_idle idle_threshold allowed_latency precision w = (fst ?m, snd (snd ?m))"
      by (simp add: turn_off_when_idle_def get_switch_state_def Let_def and_then_def)
    show ?thesis
    proof (cases "fst ?g")
      case True
      then have "snd ?g = w1"
        by (auto simp add: turn_off_if_idle_def Let_def split: if_splits)
      with main_loop_commands [of idle_threshold allowed_latency precision
          "precision_is_low_init precision" "init_sync pr (fst ?g)" "snd ?g"] t c1
      show ?thesis by simp
    next
      case False
      then have "commands (snd ?g) = commands w1 @ [False]"
        by (auto simp add: turn_off_if_idle_def set_switch_def Let_def split: if_splits)
      moreover from False have "?m = (Returned (), init_sync pr (fst ?g), snd ?g)"
        by (simp add: main_loop_stop init_sync_def)
      ultimately show ?thesis
        using t c1 by simp
    qed
  qed
qed

text \<open>The recorded run: five requests, then the one command, and the call has returned.\<close>

theorem only_one_off_command_witness:
  "commands (snd (turn_off_when_idle 5 1 3 demo_world)) = commands demo_world @ [False]
   \<and> fst (turn_off_when_idle 5 1 3 demo_world) = Returned ()
   \<and> fetched (snd (turn_off_when_idle 5 1 3 demo_world)) = 5"
proof -
  have "commands (snd (turn_off_when_idle 5 1 3 demo_world)) \<noteq> commands demo_world"
    by (subst demo_run) (simp add: demo_world_def)
  with only_one_off_command [of 5 1 3 demo_world]
  have "commands (snd (turn_off_when_idle 5 1 3 demo_world)) = commands demo_world @ [False]
      \<and> fst (turn_off_when_idle 5 1 3 demo_world) = Returned ()"
    by blast
  moreover have "fetched (snd (turn_off_when_idle 5 1 3 demo_world)) = 5"
    by (subst demo_run) simp
  ultimately show ?thesis by blast
qed

end
